theory Spec2Isabelle
  imports Main "HOL-Library.AList"
begin

section \<open>Strings and dictionaries\<close>

text \<open>
  A Python \<open>str\<close> is the \<^typ>\<open>string\<close> of the bytes of its UTF-8 encoding: equal texts
  have equal encodings, and emptiness and concatenation carry over.  The non-ASCII
  glyphs of the alert text are written as these bytes.

  \<open>str.strip\<close> and \<open>str.lower\<close> are built-ins of Python, not code of this program, and
  they act on all of Unicode.  The roster loader therefore takes them as the
  parameters \<open>str_strip\<close> and \<open>str_lower\<close>, and what is proved of the loader holds for
  whatever these two functions compute.  \<open>ascii_strip\<close> and \<open>ascii_lower\<close> below are
  what the built-ins compute on ASCII text (the ASCII characters Python counts as
  white space, and the letters \<open>A\<close> to \<open>Z\<close>); the worked examples, whose texts are
  ASCII, use them.

  A Python \<open>dict\<close> is an association list in insertion order with distinct keys:
  \<open>k in d\<close> is \<open>map_of d k \<noteq> None\<close>, \<open>d[k]\<close> is \<open>map_of d k\<close>, and \<open>d[k] = v\<close> is
  \<open>AList.update k v d\<close>, which overwrites in place or appends at the end.
\<close>

type_synonym ('k, 'v) dict = "('k \<times> 'v) list"

definition ascii_isspace :: "char \<Rightarrow> bool" where
  "ascii_isspace c \<longleftrightarrow> c \<in> set [CHR 0x09, CHR 0x0A, CHR 0x0B, CHR 0x0C, CHR 0x0D,
                           CHR 0x1C, CHR 0x1D, CHR 0x1E, CHR 0x1F, CHR 0x20]"

definition ascii_strip :: "string \<Rightarrow> string" where
  "ascii_strip s = rev (dropWhile ascii_isspace (rev (dropWhile ascii_isspace s)))"

definition ascii_lower_char :: "char \<Rightarrow> char" where
  "ascii_lower_char c = (let n = (of_char c :: nat) in
                   if 65 \<le> n \<and> n \<le> 90 then char_of (n + 32) else c)"

definition ascii_lower :: "string \<Rightarrow> string" where
  "ascii_lower s = map ascii_lower_char s"

text \<open>\<open>sep.join(xs)\<close>\<close>

fun join :: "string \<Rightarrow> string list \<Rightarrow> string" where
  "join sep [] = []"
| "join sep [x] = x"
| "join sep (x # y # ys) = x @ sep @ join sep (y # ys)"

text \<open>The decimal rendering of a non-negative integer in an f-string.\<close>

definition digit :: "nat \<Rightarrow> char" where
  "digit d = char_of (48 + d)"

fun str_nat :: "nat \<Rightarrow> string" where
  "str_nat n = (if n < 10 then [digit n] else str_nat (n div 10) @ [digit (n mod 10)])"

definition str_int :: "int \<Rightarrow> string" where
  "str_int i = (if i < 0 then CHR ''-'' # str_nat (nat (- i)) else str_nat (nat i))"


section \<open>Roster Store: \<open>load_groups_from_csv\<close>\<close>

text \<open>
  The roster file is seen through \<open>open\<close> and \<open>csv.reader\<close>.  Opening may raise; after
  that every \<open>next\<close> on the reader yields a row, raises, or finds the end of the file.
\<close>

datatype csv_event = Row "string list" | ReadError

datatype csv_source = OpenError | Opened "csv_event list"

type_synonym roster = "(string, string) dict \<times> (string, string list) dict"

text \<open>The label of line 94, \<^verbatim>\<open>f"Group {group_idx}"\<close>.\<close>

definition group_label :: "nat \<Rightarrow> string" where
  "group_label group_idx = ''Group '' @ str_nat group_idx"

text \<open>
  The inner loop over the cells of one row (lines 98 to 102); \<open>str_strip\<close> and
  \<open>str_lower\<close> stand for \<open>str.strip\<close> and \<open>str.lower\<close>.
\<close>

definition load_cell ::
  "(string \<Rightarrow> string) \<Rightarrow> (string \<Rightarrow> string) \<Rightarrow> string \<Rightarrow> string \<Rightarrow>
   string list \<times> (string, string) dict \<Rightarrow> string list \<times> (string, string) dict"
where
  "load_cell str_strip str_lower group_id cell acc =
     (case acc of (members, netid_to_group) \<Rightarrow>
        if str_strip cell \<noteq> [] then
          (let netid = str_lower (str_strip cell)
           in (members @ [netid], AList.update netid group_id netid_to_group))
        else (members, netid_to_group))"

text \<open>The body of the loop over the rows (lines 94 to 105).\<close>

definition load_row ::
  "(string \<Rightarrow> string) \<Rightarrow> (string \<Rightarrow> string) \<Rightarrow> nat \<Rightarrow> string list \<Rightarrow> roster \<Rightarrow> roster"
where
  "load_row str_strip str_lower group_idx row views =
     (case views of (netid_to_group, group_to_members) \<Rightarrow>
        (let group_id = group_label group_idx in
         case fold (load_cell str_strip str_lower group_id) row ([], netid_to_group) of
           (members, netid_to_group') \<Rightarrow>
             (netid_to_group',
              if members \<noteq> [] then AList.update group_id members group_to_members
              else group_to_members)))"

text \<open>
  The loop over the reader.  An exception raised by the reader leaves the loop and is
  caught by the handler at line 107, which only prints: the function then returns the
  two dictionaries as they are at that moment.
\<close>

fun load_rows ::
  "(string \<Rightarrow> string) \<Rightarrow> (string \<Rightarrow> string) \<Rightarrow> nat \<Rightarrow> csv_event list \<Rightarrow> roster \<Rightarrow> roster"
where
  "load_rows str_strip str_lower group_idx [] views = views"
| "load_rows str_strip str_lower group_idx (ReadError # es) views = views"
| "load_rows str_strip str_lower group_idx (Row row # es) views =
     load_rows str_strip str_lower (Suc group_idx) es
       (load_row str_strip str_lower group_idx row views)"

fun load_groups_from_csv ::
  "(string \<Rightarrow> string) \<Rightarrow> (string \<Rightarrow> string) \<Rightarrow> csv_source \<Rightarrow> roster"
where
  "load_groups_from_csv str_strip str_lower OpenError = ([], [])"
| "load_groups_from_csv str_strip str_lower (Opened []) = ([], [])"
| "load_groups_from_csv str_strip str_lower (Opened (ReadError # es)) = ([], [])"
| "load_groups_from_csv str_strip str_lower (Opened (Row headers # es)) =
     load_rows str_strip str_lower 1 es ([], [])"


section \<open>Group-Overlap Detector: \<open>check_group_members_in_queue\<close>\<close>

text \<open>One iteration of the loop over the identifiers (lines 121 to 131).\<close>

definition detect_step ::
  "(string, string) dict \<Rightarrow> string \<Rightarrow>
   (string, nat) dict \<times> (string, string list) dict \<Rightarrow>
   (string, nat) dict \<times> (string, string list) dict"
where
  "detect_step netid_to_group netid acc =
     (case acc of (group_count, groups_with_multiple_members) \<Rightarrow>
        (case map_of netid_to_group netid of
           None \<Rightarrow> (group_count, groups_with_multiple_members)
         | Some group_id \<Rightarrow>
             (let group_count' =
                    AList.update group_id
                      ((case map_of group_count group_id of None \<Rightarrow> 0 | Some c \<Rightarrow> c) + 1)
                      group_count;
                  initialised =
                    (if map_of groups_with_multiple_members group_id = None
                     then AList.update group_id [] groups_with_multiple_members
                     else groups_with_multiple_members)
              in (group_count',
                  AList.update group_id
                    ((case map_of initialised group_id of None \<Rightarrow> [] | Some ms \<Rightarrow> ms) @ [netid])
                    initialised))))"

definition check_group_members_in_queue ::
  "string list \<Rightarrow> (string, string) dict \<Rightarrow> (string, string list) dict \<Rightarrow>
   (string, string list) dict"
where
  "check_group_members_in_queue netids netid_to_group group_to_members =
     filter (\<lambda>(group_id, members). 1 < length members)
       (snd (fold (detect_step netid_to_group) netids ([], [])))"


section \<open>Alert Formatter: \<open>format_groups_message\<close>\<close>

definition warning_sign :: string where
  "warning_sign = [CHR 0xE2, CHR 0x9A, CHR 0xA0, CHR 0xEF, CHR 0xB8, CHR 0x8F]"

definition bullet :: string where
  "bullet = [CHR 0xE2, CHR 0x80, CHR 0xA2]"

definition no_groups_message :: string where
  "no_groups_message = ''No groups with multiple members found in the queue.''"

definition message_header :: string where
  "message_header =
     warning_sign @ '' **GROUPS WITH MULTIPLE MEMBERS IN QUEUE** '' @ warning_sign @ ''\<newline>\<newline>''"

text \<open>The body of the loop over the groups (lines 149 to 158).\<close>

definition format_step ::
  "(string, string list) dict \<Rightarrow> string \<times> string list \<Rightarrow> string \<Rightarrow> string"
where
  "format_step group_to_members entry message =
     (case entry of (group_id, members) \<Rightarrow>
        (let message1 = message @ ''**'' @ group_id @ ''**:\<newline>'';
             message2 = message1 @ bullet @ '' Members in queue: '' @ join '', '' members @ ''\<newline>'';
             all_members = (case map_of group_to_members group_id of None \<Rightarrow> [] | Some ms \<Rightarrow> ms);
             not_in_queue = filter (\<lambda>m. m \<notin> set members) all_members;
             message3 =
               (if not_in_queue \<noteq> []
                then message2 @ bullet @ '' Members not in queue: '' @ join '', '' not_in_queue @ ''\<newline>''
                else message2)
         in message3 @ ''\<newline>''))"

definition format_groups_message ::
  "(string, string list) dict \<Rightarrow> (string, string list) dict \<Rightarrow> string"
where
  "format_groups_message groups_in_queue group_to_members =
     (if groups_in_queue = [] then no_groups_message
      else fold (format_step group_to_members) groups_in_queue message_header)"

text \<open>
  The block of one group in the words of the specification: the group label, the
  comma-joined members in the queue and, when some roster member of the group is not
  in the queue, a second line listing the absent ones.
\<close>

definition group_block :: "(string, string list) dict \<Rightarrow> string \<times> string list \<Rightarrow> string" where
  "group_block group_to_members entry =
     (case entry of (group_id, members) \<Rightarrow>
        (let roster_members = (case map_of group_to_members group_id of None \<Rightarrow> [] | Some ms \<Rightarrow> ms)
         in ''**'' @ group_id @ ''**:\<newline>''
            @ bullet @ '' Members in queue: '' @ join '', '' members @ ''\<newline>''
            @ (if \<exists>m \<in> set roster_members. m \<notin> set members
               then bullet @ '' Members not in queue: ''
                    @ join '', '' (filter (\<lambda>m. m \<notin> set members) roster_members) @ ''\<newline>''
               else [])
            @ ''\<newline>''))"


section \<open>Queue Snapshot Fetcher: \<open>get_questions_for_queue\<close> and \<open>extract_netid\<close>\<close>

text \<open>
  A question as the queue service delivers it.  \<open>askedBy\<close> is \<open>None\<close> when the key is
  missing or its value is empty; \<open>netid_of\<close> is \<open>None\<close> when the asker has no \<open>netid\<close>.
\<close>

datatype asker = Asker (netid_of: "string option")

datatype question = Question (askedBy: "asker option") (topic: "string option")

text \<open>The request either raises or answers with a status code and a body.\<close>

datatype http_result = TransportError | Response nat "question list"

fun get_questions_for_queue :: "http_result \<Rightarrow> question list" where
  "get_questions_for_queue TransportError = []"
| "get_questions_for_queue (Response status_code body) =
     (if status_code = 200 then body else [])"

definition extract_netid :: "question \<Rightarrow> string option" where
  "extract_netid q =
     (case askedBy q of None \<Rightarrow> None | Some a \<Rightarrow> netid_of a)"

text \<open>The loop of lines 219 to 223: an entry without an identifier, or with an empty one, is skipped.\<close>

definition collect_netids :: "question list \<Rightarrow> string list" where
  "collect_netids questions =
     fold (\<lambda>q netids. case extract_netid q of
                         None \<Rightarrow> netids
                       | Some n \<Rightarrow> if n \<noteq> [] then netids @ [n] else netids)
          questions []"


section \<open>Change Tracker and polling cycle: \<open>check_queue_for_groups\<close>\<close>

text \<open>The body of the loop of lines 232 to 242.\<close>

definition track_step ::
  "(string, string list) dict \<Rightarrow> string \<times> string list \<Rightarrow>
   (string, string list) dict \<Rightarrow> (string, string list) dict"
where
  "track_step previous entry new_groups =
     (case entry of (group_id, members) \<Rightarrow>
        (case map_of previous group_id of
           None \<Rightarrow> AList.update group_id members new_groups
         | Some prev_members \<Rightarrow>
             if \<not> set members \<subseteq> set prev_members
             then AList.update group_id members new_groups
             else new_groups))"

definition new_groups ::
  "(string, string list) dict \<Rightarrow> (string, string list) dict \<Rightarrow> (string, string list) dict"
where
  "new_groups groups_in_queue previous = fold (track_step previous) groups_in_queue []"

record bot_state =
  netid_to_group :: "(string, string) dict"
  group_to_members :: "(string, string list) dict"
  previous_groups_in_queue :: "(string, string list) dict"
  CHECK_INTERVAL :: int

text \<open>
  What one cycle meets outside the program: the configured queue, the answer of the
  queue service, the configured channel id (\<open>None\<close> when the setting is not an
  integer, so that \<open>int\<close> raises), whether the channel is found, and whether \<open>send\<close>
  raises.
\<close>

record environment =
  DEFAULT_QUEUE_ID :: string
  http :: http_result
  ALERT_CHANNEL_ID :: "int option"
  channel_found :: bool
  send_raises :: bool

datatype outcome = Returned | Raised

record cycle_result =
  state_after :: bot_state
  dispatched :: "string option"
  outcome :: outcome

text \<open>Lines 245 to 253: the message handed to \<open>channel.send\<close>, and how the block ends.\<close>

definition alert ::
  "environment \<Rightarrow> (string, string list) dict \<Rightarrow> (string, string list) dict \<Rightarrow>
   string option \<times> outcome"
where
  "alert env new g2m =
     (if new \<noteq> [] then
        (case ALERT_CHANNEL_ID env of
           None \<Rightarrow> (None, Raised)
         | Some alert_channel_id \<Rightarrow>
             if 0 < alert_channel_id then
               (if channel_found env then
                  (Some (format_groups_message new g2m),
                   if send_raises env then Raised else Returned)
                else (None, Returned))
             else (None, Returned))
      else (None, Returned))"

definition check_queue_for_groups :: "environment \<Rightarrow> bot_state \<Rightarrow> cycle_result" where
  "check_queue_for_groups env st =
     (if DEFAULT_QUEUE_ID env = [] then
        \<lparr>state_after = st, dispatched = None, outcome = Returned\<rparr>
      else
        (let questions = get_questions_for_queue (http env) in
         if questions = [] then
           \<lparr>state_after = st, dispatched = None, outcome = Returned\<rparr>
         else
           (let netids = collect_netids questions;
                groups_in_queue =
                  check_group_members_in_queue netids (netid_to_group st) (group_to_members st);
                new = new_groups groups_in_queue (previous_groups_in_queue st)
            in case alert env new (group_to_members st) of
                 (sent, Raised) \<Rightarrow>
                   \<lparr>state_after = st, dispatched = sent, outcome = Raised\<rparr>
               | (sent, Returned) \<Rightarrow>
                   \<lparr>state_after = st\<lparr>previous_groups_in_queue := groups_in_queue\<rparr>,
                    dispatched = sent, outcome = Returned\<rparr>)))"


section \<open>Operator command: \<open>set_interval_command\<close>\<close>

text \<open>The command returns the new state and the text sent back to the operator.\<close>

definition set_interval_command :: "int \<Rightarrow> bot_state \<Rightarrow> bot_state \<times> string" where
  "set_interval_command seconds st =
     (if seconds < 60 then (st, ''Interval must be at least 60 seconds.'')
      else (st\<lparr>CHECK_INTERVAL := seconds\<rparr>,
            ''Check interval set to '' @ str_int seconds @ '' seconds.''))"


section \<open>Auxiliary notions for the proofs\<close>

text \<open>The identifiers one roster row contributes, in cell order.\<close>

definition row_members ::
  "(string \<Rightarrow> string) \<Rightarrow> (string \<Rightarrow> string) \<Rightarrow> string list \<Rightarrow> string list"
where
  "row_members str_strip str_lower row =
     map (\<lambda>cell. str_lower (str_strip cell)) (filter (\<lambda>cell. str_strip cell \<noteq> []) row)"

text \<open>
  What holds of the two views after the rows before \<open>idx\<close>: every identifier is listed
  under its group, every group label belongs to an earlier row, and every identifier
  is the lower-cased trimming of a cell whose trimming is not empty.
\<close>

definition roster_inv ::
  "(string \<Rightarrow> string) \<Rightarrow> (string \<Rightarrow> string) \<Rightarrow> nat \<Rightarrow> roster \<Rightarrow> bool"
where
  "roster_inv str_strip str_lower idx views \<longleftrightarrow>
     (case views of (n2g, g2m) \<Rightarrow>
        (\<forall>n g. map_of n2g n = Some g \<longrightarrow> (\<exists>ms. map_of g2m g = Some ms \<and> n \<in> set ms)) \<and>
        (\<forall>g ms. map_of g2m g = Some ms \<longrightarrow> (\<exists>j<idx. g = group_label j)) \<and>
        (\<forall>n g. map_of n2g n = Some g \<longrightarrow>
           (\<exists>cell. n = str_lower (str_strip cell) \<and> str_strip cell \<noteq> [])))"

text \<open>
  The inclusion test of the change tracker in the words of the specification: the
  group is absent from the previous result, or its current members are not a subset
  of the previous ones.
\<close>

definition is_new :: "(string, string list) dict \<Rightarrow> string \<times> string list \<Rightarrow> bool" where
  "is_new previous entry =
     (case entry of (group_id, members) \<Rightarrow>
        (case map_of previous group_id of
           None \<Rightarrow> True
         | Some prev_members \<Rightarrow> \<not> set members \<subseteq> set prev_members))"

text \<open>
  The value of \<open>new_groups\<close> when a cycle reaches line 244; \<open>None\<close> when the cycle
  returns before that.
\<close>

definition tracker_output :: "environment \<Rightarrow> bot_state \<Rightarrow> (string, string list) dict option" where
  "tracker_output env st =
     (if DEFAULT_QUEUE_ID env = [] then None
      else
        (let questions = get_questions_for_queue (http env) in
         if questions = [] then None
         else Some (new_groups
                      (check_group_members_in_queue (collect_netids questions)
                         (netid_to_group st) (group_to_members st))
                      (previous_groups_in_queue st))))"


section \<open>A worked scenario\<close>

text \<open>
  The roster has Group 1 with alice and bob and Group 2 with carol; all three are in
  the queue; nothing has been reported yet; the alert channel is configured and found.
\<close>

definition scenario_state :: bot_state where
  "scenario_state =
     \<lparr>netid_to_group = [(''alice'', ''Group 1''), (''bob'', ''Group 1''), (''carol'', ''Group 2'')],
      group_to_members = [(''Group 1'', [''alice'', ''bob'']), (''Group 2'', [''carol''])],
      previous_groups_in_queue = [],
      CHECK_INTERVAL = 300\<rparr>"

definition scenario_env :: environment where
  "scenario_env =
     \<lparr>DEFAULT_QUEUE_ID = ''1'',
      http = Response 200 [Question (Some (Asker (Some ''alice''))) None,
                           Question (Some (Asker (Some ''bob''))) None,
                           Question (Some (Asker (Some ''carol''))) None],
      ALERT_CHANNEL_ID = Some 7,
      channel_found = True,
      send_raises = False\<rparr>"

text \<open>The state once Group 1 has been reported, and two cycles whose fetch fails.\<close>

definition reported_state :: bot_state where
  "reported_state =
     scenario_state\<lparr>previous_groups_in_queue := [(''Group 1'', [''alice'', ''bob''])]\<rparr>"

definition transport_error_env :: environment where
  "transport_error_env = scenario_env\<lparr>http := TransportError\<rparr>"

definition bad_status_env :: environment where
  "bad_status_env = scenario_env\<lparr>http := Response 503 []\<rparr>"

text \<open>
  The scenario with a channel whose \<open>send\<close> raises, and with a channel id setting that
  is not an integer.
\<close>

definition failing_send_env :: environment where
  "failing_send_env = scenario_env\<lparr>send_raises := True\<rparr>"

definition bad_channel_id_env :: environment where
  "bad_channel_id_env = scenario_env\<lparr>ALERT_CHANNEL_ID := None\<rparr>"


section \<open>Facts about strings\<close>

declare str_nat.simps [simp del]

lemma isspace_iff:
  "ascii_isspace c \<longleftrightarrow> (of_char c :: nat) \<in> {9, 10, 11, 12, 13, 28, 29, 30, 31, 32}"
proof -
  have eq: "\<And>d. c = d \<longleftrightarrow> (of_char c :: nat) = of_char d" by simp
  show ?thesis unfolding ascii_isspace_def by (simp add: eq)
qed

lemma of_char_lower_char:
  "(of_char (ascii_lower_char c) :: nat) =
     (if 65 \<le> (of_char c :: nat) \<and> (of_char c :: nat) \<le> 90 then of_char c + 32 else of_char c)"
  by (simp add: ascii_lower_char_def Let_def)

lemma isspace_lower_char: "ascii_isspace (ascii_lower_char c) = ascii_isspace c"
  by (auto simp: isspace_iff of_char_lower_char)

lemma lower_char_idem: "ascii_lower_char (ascii_lower_char c) = ascii_lower_char c"
proof -
  have "(of_char (ascii_lower_char (ascii_lower_char c)) :: nat) = of_char (ascii_lower_char c)"
    by (simp add: of_char_lower_char)
  then show ?thesis by simp
qed

lemma lower_idem: "ascii_lower (ascii_lower s) = ascii_lower s"
  by (simp add: ascii_lower_def lower_char_idem)

lemma strip_lower: "ascii_strip (ascii_lower s) = ascii_lower (ascii_strip s)"
proof -
  have comp: "ascii_isspace \<circ> ascii_lower_char = ascii_isspace" by (rule ext) (simp add: isspace_lower_char)
  have dw: "\<And>xs. dropWhile ascii_isspace (map ascii_lower_char xs) = map ascii_lower_char (dropWhile ascii_isspace xs)"
    by (simp add: dropWhile_map comp)
  show ?thesis
    by (simp add: ascii_strip_def ascii_lower_def dw rev_map)
qed

lemma rev_dropWhile_rev:
  "rev (dropWhile P (rev t)) = take (length t - length (takeWhile P (rev t))) t"
proof -
  have "rev (dropWhile P (rev t)) = rev (drop (length (takeWhile P (rev t))) (rev t))"
    by (simp add: dropWhile_eq_drop)
  also have "\<dots> = take (length t - length (takeWhile P (rev t))) t"
    by (simp add: rev_drop)
  finally show ?thesis .
qed

lemma strip_idem: "ascii_strip (ascii_strip s) = ascii_strip s"
proof -
  define t where "t = dropWhile ascii_isspace s"
  define k where "k = length (takeWhile ascii_isspace (rev t))"
  have u: "ascii_strip s = take (length t - k) t"
    unfolding ascii_strip_def t_def [symmetric] k_def by (rule rev_dropWhile_rev)
  have front: "dropWhile ascii_isspace (ascii_strip s) = ascii_strip s"
  proof (cases "ascii_strip s = []")
    case True
    then show ?thesis by simp
  next
    case False
    with u have pos: "0 < length t - k" and "t \<noteq> []" by auto
    then have "\<not> ascii_isspace (hd t)" unfolding t_def by (simp add: hd_dropWhile)
    moreover from u pos have "hd (ascii_strip s) = hd t" by simp
    ultimately show ?thesis using False by (cases "ascii_strip s") auto
  qed
  have "ascii_strip (ascii_strip s) = rev (dropWhile ascii_isspace (rev (ascii_strip s)))"
    by (subst ascii_strip_def) (simp add: front)
  also have "\<dots> = ascii_strip s" by (simp add: ascii_strip_def)
  finally show ?thesis .
qed

lemma normalise_idem: "ascii_lower (ascii_strip (ascii_lower (ascii_strip c))) = ascii_lower (ascii_strip c)"
  by (simp add: strip_lower [symmetric] lower_idem strip_idem)

lemma digit_inj: "a < 10 \<Longrightarrow> b < 10 \<Longrightarrow> digit a = digit b \<Longrightarrow> a = b"
proof -
  assume a: "a < 10" and b: "b < 10" and e: "digit a = digit b"
  from e have "(of_char (digit a) :: nat) = of_char (digit b)" by simp
  with a b show ?thesis by (simp add: digit_def)
qed

lemma str_nat_nonempty: "str_nat n \<noteq> []"
  by (subst str_nat.simps) simp

lemma str_nat_inj: "str_nat m = str_nat n \<Longrightarrow> m = n"
proof (induction m arbitrary: n rule: str_nat.induct)
  case (1 m)
  show ?case
  proof (cases "m < 10")
    case m: True
    show ?thesis
    proof (cases "n < 10")
      case True
      with m "1.prems" show ?thesis
        by (subst (asm) str_nat.simps, subst (asm) (2) str_nat.simps) (simp add: digit_inj)
    next
      case False
      with m "1.prems" str_nat_nonempty [of "n div 10"] show ?thesis
        by (subst (asm) str_nat.simps, subst (asm) (2) str_nat.simps) simp
    qed
  next
    case m: False
    show ?thesis
    proof (cases "n < 10")
      case True
      with m "1.prems" str_nat_nonempty [of "m div 10"] show ?thesis
        by (subst (asm) str_nat.simps, subst (asm) (2) str_nat.simps) simp
    next
      case False
      from m False "1.prems"
      have e: "str_nat (m div 10) @ [digit (m mod 10)] = str_nat (n div 10) @ [digit (n mod 10)]"
        by (subst (asm) str_nat.simps, subst (asm) (2) str_nat.simps) simp
      then have "str_nat (m div 10) = str_nat (n div 10)" and d: "digit (m mod 10) = digit (n mod 10)"
        by simp_all
      with "1.IH" m have "m div 10 = n div 10" by simp
      moreover from d have "m mod 10 = n mod 10" by (intro digit_inj) simp_all
      ultimately show ?thesis by (metis div_mult_mod_eq)
    qed
  qed
qed

lemma group_label_inj: "group_label i = group_label j \<Longrightarrow> i = j"
  by (simp add: group_label_def str_nat_inj)


section \<open>Facts about dictionaries\<close>

lemma update_fresh: "k \<notin> fst ` set al \<Longrightarrow> AList.update k v al = al @ [(k, v)]"
  by (induction al) auto

lemma map_of_filter_entries:
  "distinct (map fst al) \<Longrightarrow>
   map_of (filter P al) k =
     (case map_of al k of None \<Rightarrow> None | Some v \<Rightarrow> if P (k, v) then Some v else None)"
proof (induction al)
  case Nil
  then show ?case by simp
next
  case (Cons a al)
  obtain k' v' where a: "a = (k', v')" by (cases a)
  from Cons.prems a have fresh: "map_of al k' = None"
    by (simp add: map_of_eq_None_iff)
  from Cons have IH: "map_of (filter P al) k =
     (case map_of al k of None \<Rightarrow> None | Some v \<Rightarrow> if P (k, v) then Some v else None)"
    by simp
  show ?case
  proof (cases "k = k'")
    case True
    with IH fresh have "map_of (filter P al) k' = None" by simp
    with True fresh show ?thesis by (simp add: a)
  next
    case False
    with IH show ?thesis by (simp add: a)
  qed
qed

lemma distinct_filter_keys:
  "distinct (map fst al) \<Longrightarrow> distinct (map fst (filter Q al))"
  by (simp add: distinct_map_filter)


section \<open>The roster views\<close>

lemma load_cell_pair:
  "load_cell S L gid cell (ms, n2g) =
     (if S cell \<noteq> [] then (ms @ [L (S cell)], AList.update (L (S cell)) gid n2g)
      else (ms, n2g))"
  by (simp add: load_cell_def Let_def)

lemma load_cell_fold:
  "fold (load_cell S L gid) row (ms0, n2g0) = (ms, n2g) \<Longrightarrow>
   ms = ms0 @ row_members S L row \<and>
   (\<forall>n. map_of n2g n = (if n \<in> set (row_members S L row) then Some gid else map_of n2g0 n))"
proof (induction row arbitrary: ms0 n2g0)
  case Nil
  then show ?case by (simp add: row_members_def)
next
  case (Cons cell row)
  show ?case
  proof (cases "S cell = []")
    case True
    with Cons.prems have "fold (load_cell S L gid) row (ms0, n2g0) = (ms, n2g)"
      by (simp add: load_cell_pair)
    from Cons.IH [OF this] True show ?thesis by (simp add: row_members_def)
  next
    case False
    with Cons.prems
    have "fold (load_cell S L gid) row
            (ms0 @ [L (S cell)], AList.update (L (S cell)) gid n2g0) = (ms, n2g)"
      by (simp add: load_cell_pair)
    from Cons.IH [OF this] False show ?thesis
      by (auto simp: row_members_def update_conv')
  qed
qed

lemma load_row_views:
  assumes "load_row S L idx row (n2g0, g2m0) = (n2g, g2m)"
  shows "(\<forall>n. map_of n2g n =
            (if n \<in> set (row_members S L row) then Some (group_label idx) else map_of n2g0 n))"
    and "(\<forall>g. map_of g2m g =
            (if g = group_label idx \<and> row_members S L row \<noteq> [] then Some (row_members S L row)
             else map_of g2m0 g))"
proof -
  obtain ms n2g' where f: "fold (load_cell S L (group_label idx)) row ([], n2g0) = (ms, n2g')"
    by (cases "fold (load_cell S L (group_label idx)) row ([], n2g0)")
  from load_cell_fold [OF f] have ms: "ms = row_members S L row"
    and look: "\<forall>n. map_of n2g' n =
            (if n \<in> set (row_members S L row) then Some (group_label idx) else map_of n2g0 n)"
    by simp_all
  from assms f have r: "n2g = n2g'"
    "g2m = (if ms \<noteq> [] then AList.update (group_label idx) ms g2m0 else g2m0)"
    by (auto simp: load_row_def Let_def split: if_splits)
  from r look show "\<forall>n. map_of n2g n =
            (if n \<in> set (row_members S L row) then Some (group_label idx) else map_of n2g0 n)"
    by simp
  from r ms show "\<forall>g. map_of g2m g =
            (if g = group_label idx \<and> row_members S L row \<noteq> [] then Some (row_members S L row)
             else map_of g2m0 g)"
    by (simp add: update_conv')
qed

lemma row_members_cells:
  "n \<in> set (row_members S L row) \<Longrightarrow> \<exists>cell. n = L (S cell) \<and> S cell \<noteq> []"
  by (auto simp: row_members_def)

lemma load_row_inv:
  assumes inv: "roster_inv S L idx views"
  shows "roster_inv S L (Suc idx) (load_row S L idx row views)"
proof -
  obtain n2g0 g2m0 where v: "views = (n2g0, g2m0)" by (cases views)
  obtain n2g g2m where l: "load_row S L idx row (n2g0, g2m0) = (n2g, g2m)"
    by (cases "load_row S L idx row (n2g0, g2m0)")
  note A = load_row_views(1) [OF l, rule_format] and B = load_row_views(2) [OF l, rule_format]
  from inv v have
    i1: "\<And>n g. map_of n2g0 n = Some g \<Longrightarrow> \<exists>ms. map_of g2m0 g = Some ms \<and> n \<in> set ms" and
    i2: "\<And>g ms. map_of g2m0 g = Some ms \<Longrightarrow> \<exists>j<idx. g = group_label j" and
    i3: "\<And>n g. map_of n2g0 n = Some g \<Longrightarrow> \<exists>cell. n = L (S cell) \<and> S cell \<noteq> []"
    by (auto simp: roster_inv_def)
  have c1: "\<exists>ms. map_of g2m g = Some ms \<and> n \<in> set ms" if h: "map_of n2g n = Some g" for n g
  proof (cases "n \<in> set (row_members S L row)")
    case True
    with h A [of n] have "g = group_label idx" by simp
    moreover from True have "row_members S L row \<noteq> []" by auto
    ultimately show ?thesis using B [of g] True by simp
  next
    case False
    with h A [of n] have old: "map_of n2g0 n = Some g" by simp
    from i1 [OF old] obtain ms where ms: "map_of g2m0 g = Some ms" "n \<in> set ms" by blast
    from i2 [OF ms(1)] obtain j where j: "j < idx" "g = group_label j" by blast
    then have "g \<noteq> group_label idx" by (auto dest: group_label_inj)
    with B [of g] ms show ?thesis by simp
  qed
  have c2: "\<exists>j<Suc idx. g = group_label j" if h: "map_of g2m g = Some ms" for g ms
  proof (cases "g = group_label idx")
    case True
    then show ?thesis by blast
  next
    case False
    with h B [of g] have "map_of g2m0 g = Some ms" by simp
    from i2 [OF this] show ?thesis by (auto intro: less_SucI)
  qed
  have c3: "\<exists>cell. n = L (S cell) \<and> S cell \<noteq> []" if h: "map_of n2g n = Some g" for n g
  proof (cases "n \<in> set (row_members S L row)")
    case True
    then show ?thesis by (rule row_members_cells)
  next
    case False
    with h A [of n] have "map_of n2g0 n = Some g" by simp
    then show ?thesis by (rule i3)
  qed
  from c1 c2 c3 show ?thesis unfolding v l roster_inv_def by blast
qed

lemma load_rows_inv:
  "roster_inv S L idx views \<Longrightarrow> \<exists>j. roster_inv S L j (load_rows S L idx es views)"
proof (induction es arbitrary: idx views)
  case Nil
  then show ?case by auto
next
  case (Cons e es)
  show ?case
  proof (cases e)
    case (Row row)
    from Cons.IH [OF load_row_inv [OF Cons.prems, of row]] Row show ?thesis by simp
  next
    case ReadError
    with Cons.prems show ?thesis by auto
  qed
qed

lemma load_groups_inv: "\<exists>j. roster_inv S L j (load_groups_from_csv S L src)"
proof -
  have empty: "roster_inv S L 1 ([], [])" by (simp add: roster_inv_def)
  show ?thesis
  proof (cases src)
    case OpenError
    with empty show ?thesis by auto
  next
    case (Opened es)
    show ?thesis
    proof (cases es)
      case Nil
      with Opened empty show ?thesis by auto
    next
      case (Cons e es')
      show ?thesis
      proof (cases e)
        case (Row headers)
        from load_rows_inv [OF empty, of es'] Opened Cons Row show ?thesis by simp
      next
        case ReadError
        with Opened Cons empty show ?thesis by auto
      qed
    qed
  qed
qed

lemma roster_keys_cells:
  assumes "load_groups_from_csv S L src = (n2g, g2m)" and "map_of n2g n = Some g"
  shows "\<exists>cell. n = L (S cell) \<and> S cell \<noteq> []"
proof -
  from load_groups_inv [of S L src] assms(1) obtain j where "roster_inv S L j (n2g, g2m)" by auto
  with assms(2) show ?thesis unfolding roster_inv_def by blast
qed

lemma load_rows_cut:
  "load_rows S L idx (map Row rs @ ReadError # rest) views = load_rows S L idx (map Row rs) views"
  by (induction rs arbitrary: idx views) simp_all

text \<open>
  C6: whatever the roster source (and whatever \<open>str.strip\<close> and \<open>str.lower\<close> compute),
  every identifier of the identifier-to-group view is listed under the group that view
  assigns to it in the group-to-members view; this covers an identifier that occurs
  in several rows, which keeps the group of the last.
\<close>

theorem roster_views_consistent:
  assumes "load_groups_from_csv str_strip str_lower src = (n2g, g2m)"
    and "map_of n2g n = Some g"
  shows "\<exists>ms. map_of g2m g = Some ms \<and> n \<in> set ms"
proof -
  from load_groups_inv [of str_strip str_lower src] assms(1)
  obtain j where "roster_inv str_strip str_lower j (n2g, g2m)" by auto
  with assms(2) show ?thesis unfolding roster_inv_def by blast
qed

theorem roster_views_consistent_witness:
  "load_groups_from_csv ascii_strip ascii_lower
     (Opened [Row [''m1'', ''m2''], Row [''alice'', '' Bob ''], Row [''carol'', ''alice'']]) =
     ([(''alice'', ''Group 2''), (''bob'', ''Group 1''), (''carol'', ''Group 2'')],
      [(''Group 1'', [''alice'', ''bob'']), (''Group 2'', [''carol'', ''alice''])]) \<and>
   map_of [(''alice'', ''Group 2''), (''bob'', ''Group 1''), (''carol'', ''Group 2'')] ''alice'' =
     Some ''Group 2'' \<and>
   (\<exists>ms. map_of [(''Group 1'', [''alice'', ''bob'']), (''Group 2'', [''carol'', ''alice''])]
            ''Group 2'' = Some ms \<and> ''alice'' \<in> set ms)"
proof -
  have loaded: "load_groups_from_csv ascii_strip ascii_lower
     (Opened [Row [''m1'', ''m2''], Row [''alice'', '' Bob ''], Row [''carol'', ''alice'']]) =
     ([(''alice'', ''Group 2''), (''bob'', ''Group 1''), (''carol'', ''Group 2'')],
      [(''Group 1'', [''alice'', ''bob'']), (''Group 2'', [''carol'', ''alice''])])"
    by code_simp
  have found: "map_of [(''alice'', ''Group 2''), (''bob'', ''Group 1''), (''carol'', ''Group 2'')]
                  ''alice'' = Some ''Group 2''"
    by simp
  from roster_views_consistent [OF loaded found] loaded found show ?thesis by blast
qed

text \<open>
  C3, as the code has it: the error is never propagated.  When the source cannot be
  opened, has no header row, or the reader raises on the header row, both views are
  empty.  When the reader raises after some data rows, the views returned are those
  built from the rows read before the error.
\<close>

theorem load_error_views:
  "load_groups_from_csv str_strip str_lower OpenError = ([], []) \<and>
   load_groups_from_csv str_strip str_lower (Opened []) = ([], []) \<and>
   load_groups_from_csv str_strip str_lower (Opened (ReadError # rest)) = ([], []) \<and>
   load_groups_from_csv str_strip str_lower
       (Opened (Row headers # map Row rs @ ReadError # rest)) =
     load_groups_from_csv str_strip str_lower (Opened (Row headers # map Row rs))"
  by (simp add: load_rows_cut)

text \<open>A reader that raises after the first data row leaves both views populated.\<close>

theorem read_error_keeps_partial_views:
  "load_groups_from_csv ascii_strip ascii_lower
       (Opened [Row [''m1'', ''m2''], Row [''alice'', ''bob''], ReadError]) =
     ([(''alice'', ''Group 1''), (''bob'', ''Group 1'')], [(''Group 1'', [''alice'', ''bob''])]) \<and>
   load_groups_from_csv ascii_strip ascii_lower
       (Opened [Row [''m1'', ''m2''], Row [''alice'', ''bob''], ReadError]) \<noteq>
     ([], [])"
  by code_simp


section \<open>The overlap detector\<close>

lemma detect_step_snd:
  "map_of (snd (detect_step n2g a (gc, gw))) g =
     (if map_of n2g a = Some g
      then Some ((case map_of gw g of None \<Rightarrow> [] | Some ms \<Rightarrow> ms) @ [a])
      else map_of gw g)"
  by (auto simp: detect_step_def Let_def update_conv' split: option.splits)

lemma detect_step_distinct:
  "distinct (map fst gw) \<Longrightarrow> distinct (map fst (snd (detect_step n2g a (gc, gw))))"
  by (auto simp: detect_step_def Let_def distinct_update split: option.splits)

lemma detect_fold_distinct:
  "distinct (map fst gw) \<Longrightarrow>
   distinct (map fst (snd (fold (detect_step n2g) netids (gc, gw))))"
proof (induction netids arbitrary: gc gw)
  case Nil
  then show ?case by simp
next
  case (Cons a netids)
  obtain gc' gw' where step: "detect_step n2g a (gc, gw) = (gc', gw')"
    by (cases "detect_step n2g a (gc, gw)")
  with detect_step_distinct [OF Cons.prems, of n2g a gc] have "distinct (map fst gw')" by simp
  from Cons.IH [OF this] step show ?case by simp
qed

lemma detect_fold_lookup:
  "map_of (snd (fold (detect_step n2g) netids (gc, gw))) g =
     (case map_of gw g of
        None \<Rightarrow> (if filter (\<lambda>n. map_of n2g n = Some g) netids = [] then None
                 else Some (filter (\<lambda>n. map_of n2g n = Some g) netids))
      | Some ms \<Rightarrow> Some (ms @ filter (\<lambda>n. map_of n2g n = Some g) netids))"
proof (induction netids arbitrary: gc gw)
  case Nil
  then show ?case by (simp split: option.splits)
next
  case (Cons a netids)
  obtain gc' gw' where step: "detect_step n2g a (gc, gw) = (gc', gw')"
    by (cases "detect_step n2g a (gc, gw)")
  have gw': "map_of gw' g =
     (if map_of n2g a = Some g
      then Some ((case map_of gw g of None \<Rightarrow> [] | Some ms \<Rightarrow> ms) @ [a])
      else map_of gw g)"
    using detect_step_snd [of n2g a gc gw g] step by simp
  show ?case
    using Cons.IH [of gc' gw'] step gw' by (simp split: option.splits)
qed

lemma detect_distinct:
  "distinct (map fst (check_group_members_in_queue netids n2g g2m))"
  unfolding check_group_members_in_queue_def
  by (intro distinct_filter_keys detect_fold_distinct) simp

lemma detect_lookup:
  "map_of (check_group_members_in_queue netids n2g g2m) g =
     (if 2 \<le> length (filter (\<lambda>n. map_of n2g n = Some g) netids)
      then Some (filter (\<lambda>n. map_of n2g n = Some g) netids) else None)"
proof -
  let ?gw = "snd (fold (detect_step n2g) netids ([], []))"
  have d: "distinct (map fst ?gw)" by (rule detect_fold_distinct) simp
  have l: "map_of ?gw g =
     (if filter (\<lambda>n. map_of n2g n = Some g) netids = [] then None
      else Some (filter (\<lambda>n. map_of n2g n = Some g) netids))"
    using detect_fold_lookup [of n2g netids "[]" "[]" g] by simp
  show ?thesis
    unfolding check_group_members_in_queue_def
    using map_of_filter_entries [OF d, of "\<lambda>(group_id, members). 1 < length members" g] l
    by (auto split: option.splits)
qed

lemma detect_step_unknown:
  "map_of n2g x = None \<Longrightarrow> detect_step n2g x acc = acc"
  by (cases acc) (simp add: detect_step_def)

lemma detect_fold_skip:
  "map_of n2g x = None \<Longrightarrow>
   fold (detect_step n2g) (filter (\<lambda>n. n \<noteq> x) netids) acc = fold (detect_step n2g) netids acc"
  by (induction netids arbitrary: acc) (auto simp: detect_step_unknown)

lemma detect_members_known:
  assumes "(g, ms) \<in> set (check_group_members_in_queue netids n2g g2m)" and "x \<in> set ms"
  shows "map_of n2g x = Some g"
proof -
  from assms(1) detect_distinct [of netids n2g g2m]
  have "map_of (check_group_members_in_queue netids n2g g2m) g = Some ms" by simp
  then have "ms = filter (\<lambda>n. map_of n2g n = Some g) netids"
    by (simp add: detect_lookup split: if_splits)
  with assms(2) show ?thesis by simp
qed

text \<open>
  C4: the detector's result is a mapping (no group occurs twice) that sends a group to
  the input identifiers the roster assigns to it, in input order and with duplicates,
  when there are at least two of them, and that has no entry for the group otherwise;
  identifiers the roster does not know are in no list.  The detector is a function of
  its arguments, so two runs on the same input give the same result.
\<close>

theorem detect_sublists:
  "distinct (map fst (check_group_members_in_queue netids n2g g2m)) \<and>
   map_of (check_group_members_in_queue netids n2g g2m) g =
     (if 2 \<le> length (filter (\<lambda>n. map_of n2g n = Some g) netids)
      then Some (filter (\<lambda>n. map_of n2g n = Some g) netids) else None)"
  using detect_distinct detect_lookup by blast

text \<open>
  C5: every group in a result of the detector has at least two entries in its list, so
  a group with a single queued member never appears; an identifier queued twice counts
  twice.
\<close>

theorem detect_threshold:
  "\<forall>(g, ms) \<in> set (check_group_members_in_queue netids n2g g2m). 2 \<le> length ms"
  by (auto simp: check_group_members_in_queue_def)

theorem detect_threshold_witness:
  "(''Group 1'', [''alice'', ''alice'']) \<in>
     set (check_group_members_in_queue [''alice'', ''carol'', ''alice'']
            [(''alice'', ''Group 1''), (''bob'', ''Group 1''), (''carol'', ''Group 2'')]
            [(''Group 1'', [''alice'', ''bob'']), (''Group 2'', [''carol''])]) \<and>
   2 \<le> length [''alice'', ''alice'']"
proof -
  have present: "(''Group 1'', [''alice'', ''alice'']) \<in>
     set (check_group_members_in_queue [''alice'', ''carol'', ''alice'']
            [(''alice'', ''Group 1''), (''bob'', ''Group 1''), (''carol'', ''Group 2'')]
            [(''Group 1'', [''alice'', ''bob'']), (''Group 2'', [''carol''])])"
    by code_simp
  from detect_threshold [of "[''alice'', ''carol'', ''alice'']"
         "[(''alice'', ''Group 1''), (''bob'', ''Group 1''), (''carol'', ''Group 2'')]"
         "[(''Group 1'', [''alice'', ''bob'']), (''Group 2'', [''carol''])]"] present
  show ?thesis by blast
qed

text \<open>
  C10: an identifier taken from a queue entry reaches the roster lookup as it is: it
  is neither lower-cased nor trimmed on the way.  When it differs from a roster
  identifier only by letter case or surrounding white space (trimming and lower-casing
  it gives the roster identifier, and it is not that identifier itself), it is not a
  key of the loaded roster, it occurs in no list of the detector's result, and the
  result is the same as without it.  Of \<open>str.strip\<close> and \<open>str.lower\<close> this uses one
  property, which the built-ins have: trimming and lower-casing a text that is already
  trimmed and lower-cased changes nothing.
\<close>

theorem verbatim_lookup:
  assumes "\<And>s. str_lower (str_strip (str_lower (str_strip s))) = str_lower (str_strip s)"
    and "load_groups_from_csv str_strip str_lower src = (n2g, g2m)"
    and "map_of n2g m = Some g" and "x \<noteq> m" and "str_lower (str_strip x) = m"
  shows "extract_netid (Question (Some (Asker (Some x))) t) = Some x \<and>
         collect_netids [Question (Some (Asker (Some x))) t] = (if x = [] then [] else [x]) \<and>
         map_of n2g x = None \<and>
         (\<forall>(g', ms) \<in> set (check_group_members_in_queue netids n2g g2m). x \<notin> set ms) \<and>
         check_group_members_in_queue netids n2g g2m =
           check_group_members_in_queue (filter (\<lambda>n. n \<noteq> x) netids) n2g g2m"
proof -
  have unknown: "map_of n2g x = None"
  proof (rule ccontr)
    assume "map_of n2g x \<noteq> None"
    then obtain g' where "map_of n2g x = Some g'" by blast
    from roster_keys_cells [OF assms(2) this]
    obtain cell where "x = str_lower (str_strip cell)" by blast
    with assms(1) [of cell] have "str_lower (str_strip x) = x" by simp
    with assms(4,5) show False by simp
  qed
  moreover have "extract_netid (Question (Some (Asker (Some x))) t) = Some x"
    by (simp add: extract_netid_def)
  moreover have "collect_netids [Question (Some (Asker (Some x))) t] =
                   (if x = [] then [] else [x])"
    by (simp add: collect_netids_def extract_netid_def)
  moreover have "\<forall>(g', ms) \<in> set (check_group_members_in_queue netids n2g g2m). x \<notin> set ms"
    using detect_members_known [of _ _ netids n2g g2m x] unknown by fastforce
  moreover have "check_group_members_in_queue netids n2g g2m =
           check_group_members_in_queue (filter (\<lambda>n. n \<noteq> x) netids) n2g g2m"
    by (simp add: check_group_members_in_queue_def detect_fold_skip [OF unknown])
  ultimately show ?thesis by blast
qed

theorem verbatim_lookup_witness:
  "ascii_lower (ascii_strip (ascii_lower (ascii_strip '' Bob''))) =
     ascii_lower (ascii_strip '' Bob'') \<and>
   load_groups_from_csv ascii_strip ascii_lower
       (Opened [Row [''m1'', ''m2''], Row [''alice'', ''Bob '']]) =
     ([(''alice'', ''Group 1''), (''bob'', ''Group 1'')], [(''Group 1'', [''alice'', ''bob''])]) \<and>
   map_of [(''alice'', ''Group 1''), (''bob'', ''Group 1'')] ''bob'' = Some ''Group 1'' \<and>
   '' Bob'' \<noteq> ''bob'' \<and> ascii_lower (ascii_strip '' Bob'') = ''bob'' \<and>
   extract_netid (Question (Some (Asker (Some '' Bob''))) None) = Some '' Bob'' \<and>
   collect_netids [Question (Some (Asker (Some '' Bob''))) None] = ['' Bob''] \<and>
   map_of [(''alice'', ''Group 1''), (''bob'', ''Group 1'')] '' Bob'' = None \<and>
   check_group_members_in_queue [''alice'', '' Bob'']
     [(''alice'', ''Group 1''), (''bob'', ''Group 1'')] [(''Group 1'', [''alice'', ''bob''])] = []"
proof -
  have loaded: "load_groups_from_csv ascii_strip ascii_lower
       (Opened [Row [''m1'', ''m2''], Row [''alice'', ''Bob '']]) =
     ([(''alice'', ''Group 1''), (''bob'', ''Group 1'')], [(''Group 1'', [''alice'', ''bob''])])"
    by code_simp
  have member: "map_of [(''alice'', ''Group 1''), (''bob'', ''Group 1'')] ''bob'' = Some ''Group 1''"
    by simp
  have differs: "'' Bob'' \<noteq> ''bob''" by simp
  have same: "ascii_lower (ascii_strip '' Bob'') = ''bob''" by code_simp
  have without: "check_group_members_in_queue (filter (\<lambda>n. n \<noteq> '' Bob'') [''alice'', '' Bob''])
     [(''alice'', ''Group 1''), (''bob'', ''Group 1'')] [(''Group 1'', [''alice'', ''bob''])] = []"
    by code_simp
  from verbatim_lookup [where str_strip = ascii_strip and str_lower = ascii_lower
         and t = None and netids = "[''alice'', '' Bob'']",
         OF normalise_idem loaded member differs same]
    normalise_idem [of "'' Bob''"] loaded member differs same without
  show ?thesis by simp
qed


section \<open>The change tracker\<close>

lemma track_step_pair:
  "track_step prev (g, ms) acc = (if is_new prev (g, ms) then AList.update g ms acc else acc)"
  by (simp add: track_step_def is_new_def split: option.splits)

lemma track_fold:
  "distinct (map fst cur) \<Longrightarrow> fst ` set acc \<inter> fst ` set cur = {} \<Longrightarrow>
   fold (track_step prev) cur acc = acc @ filter (is_new prev) cur"
proof (induction cur arbitrary: acc)
  case Nil
  then show ?case by simp
next
  case (Cons e cur)
  obtain g ms where e: "e = (g, ms)" by (cases e)
  from Cons.prems e have fresh: "g \<notin> fst ` set acc" and d: "distinct (map fst cur)"
    and g: "g \<notin> fst ` set cur" and disj: "fst ` set acc \<inter> fst ` set cur = {}"
    by auto
  show ?case
  proof (cases "is_new prev (g, ms)")
    case True
    from g disj have "fst ` set (acc @ [(g, ms)]) \<inter> fst ` set cur = {}" by auto
    from Cons.IH [OF d this] True fresh show ?thesis
      by (simp add: e track_step_pair update_fresh)
  next
    case False
    from Cons.IH [OF d disj] False show ?thesis
      by (simp add: e track_step_pair)
  qed
qed

lemma new_groups_filter:
  "distinct (map fst current) \<Longrightarrow> new_groups current previous = filter (is_new previous) current"
  unfolding new_groups_def using track_fold [of current "[]" previous] by simp

lemma new_groups_self:
  assumes "distinct (map fst current)"
  shows "new_groups current current = []"
proof -
  have "\<not> is_new current e" if "e \<in> set current" for e
  proof -
    obtain g ms where e: "e = (g, ms)" by (cases e)
    with that assms have "map_of current g = Some ms" by simp
    then show ?thesis by (simp add: e is_new_def)
  qed
  then show ?thesis by (simp add: new_groups_filter [OF assms] filter_empty_conv)
qed

text \<open>
  C1: for a current overlap mapping (a dictionary, so without repeated keys) and any
  previous one, the diff has an entry for a group exactly when the group is in the
  current mapping and is either absent from the previous mapping or has current
  members that are not a subset of its previous members; the entry is the full current
  member list.  With previous \<open>{G: [a, b]}\<close> and current \<open>{G: [a, c]}\<close>, where \<open>c\<close> is a
  third identifier, the diff is \<open>{G: [a, c]}\<close>.
\<close>

theorem diff_rule:
  "(distinct (map fst current) \<longrightarrow>
      map_of (new_groups current previous) G =
        (case map_of current G of
           None \<Rightarrow> None
         | Some members \<Rightarrow>
             (case map_of previous G of
                None \<Rightarrow> Some members
              | Some prev_members \<Rightarrow>
                  if set members \<subseteq> set prev_members then None else Some members))) \<and>
   (c \<noteq> a \<and> c \<noteq> b \<longrightarrow> new_groups [(G, [a, c])] [(G, [a, b])] = [(G, [a, c])])"
proof (intro conjI impI)
  assume d: "distinct (map fst current)"
  show "map_of (new_groups current previous) G =
        (case map_of current G of
           None \<Rightarrow> None
         | Some members \<Rightarrow>
             (case map_of previous G of
                None \<Rightarrow> Some members
              | Some prev_members \<Rightarrow>
                  if set members \<subseteq> set prev_members then None else Some members))"
    by (simp add: new_groups_filter [OF d] map_of_filter_entries [OF d] is_new_def
             split: option.splits)
next
  assume "c \<noteq> a \<and> c \<noteq> b"
  then show "new_groups [(G, [a, c])] [(G, [a, b])] = [(G, [a, c])]"
    by (simp add: new_groups_def track_step_def)
qed

theorem diff_rule_witness:
  "distinct (map fst [(''Group 1'', [''alice'', ''carol''])]) \<and>
   map_of (new_groups [(''Group 1'', [''alice'', ''carol''])] [(''Group 1'', [''alice'', ''bob''])])
     ''Group 1'' = Some [''alice'', ''carol''] \<and>
   ''carol'' \<noteq> ''alice'' \<and> ''carol'' \<noteq> ''bob'' \<and>
   new_groups [(''Group 1'', [''alice'', ''carol''])] [(''Group 1'', [''alice'', ''bob''])] =
     [(''Group 1'', [''alice'', ''carol''])]"
  using diff_rule [of "[(''Group 1'', [''alice'', ''carol''])]" "[(''Group 1'', [''alice'', ''bob''])]"
                      "''Group 1''" "''carol''" "''alice''" "''bob''"]
  by simp


section \<open>The alert formatter\<close>

lemma format_step_block:
  "format_step g2m e message = message @ group_block g2m e"
  by (cases e) (simp add: format_step_def group_block_def Let_def filter_empty_conv)

lemma format_fold:
  "fold (format_step g2m) ov message = message @ concat (map (group_block g2m) ov)"
  by (induction ov arbitrary: message) (simp_all add: format_step_block)

text \<open>
  C7: for an empty overlap result the formatter returns the fixed sentence; for any
  other it returns the header followed by one block per group, in the order of the
  overlap result, each block made of the group label, the comma-joined members in the
  queue and, exactly when some roster member of the group is not among them, a second
  line listing those members.
\<close>

theorem format_blocks:
  "format_groups_message [] g2m = ''No groups with multiple members found in the queue.'' \<and>
   (ov \<noteq> [] \<longrightarrow>
      format_groups_message ov g2m = message_header @ concat (map (group_block g2m) ov))"
  by (simp add: format_groups_message_def no_groups_message_def format_fold)

theorem format_blocks_witness:
  "[(''Group 1'', [''alice'', ''bob''])] \<noteq> [] \<and>
   format_groups_message [(''Group 1'', [''alice'', ''bob''])]
     [(''Group 1'', [''alice'', ''bob'', ''dan'']), (''Group 2'', [''carol''])] =
     message_header @ ''**Group 1**:\<newline>''
       @ bullet @ '' Members in queue: alice, bob\<newline>''
       @ bullet @ '' Members not in queue: dan\<newline>\<newline>''"
proof -
  have block: "group_block [(''Group 1'', [''alice'', ''bob'', ''dan'']), (''Group 2'', [''carol''])]
       (''Group 1'', [''alice'', ''bob'']) =
     ''**Group 1**:\<newline>''
       @ bullet @ '' Members in queue: alice, bob\<newline>''
       @ bullet @ '' Members not in queue: dan\<newline>\<newline>''"
    by code_simp
  from format_blocks [where ov = "[(''Group 1'', [''alice'', ''bob''])]"
          and g2m = "[(''Group 1'', [''alice'', ''bob'', ''dan'']), (''Group 2'', [''carol''])]"]
    block
  show ?thesis by simp
qed


section \<open>The polling cycle\<close>

lemma alert_empty: "alert env [] g2m = (None, Returned)"
  by (simp add: alert_def)

lemma cycle_early:
  "DEFAULT_QUEUE_ID env = [] \<or> get_questions_for_queue (http env) = [] \<Longrightarrow>
   check_queue_for_groups env st = \<lparr>state_after = st, dispatched = None, outcome = Returned\<rparr>"
  by (auto simp: check_queue_for_groups_def Let_def)

lemma cycle_full:
  assumes "DEFAULT_QUEUE_ID env \<noteq> []" and "get_questions_for_queue (http env) \<noteq> []"
  shows "check_queue_for_groups env st =
     (case alert env
             (new_groups
                (check_group_members_in_queue (collect_netids (get_questions_for_queue (http env)))
                   (netid_to_group st) (group_to_members st))
                (previous_groups_in_queue st))
             (group_to_members st) of
        (sent, Raised) \<Rightarrow> \<lparr>state_after = st, dispatched = sent, outcome = Raised\<rparr>
      | (sent, Returned) \<Rightarrow>
          \<lparr>state_after = st\<lparr>previous_groups_in_queue :=
               check_group_members_in_queue (collect_netids (get_questions_for_queue (http env)))
                 (netid_to_group st) (group_to_members st)\<rparr>,
           dispatched = sent, outcome = Returned\<rparr>)"
  using assms by (simp add: check_queue_for_groups_def Let_def)

lemma cycle_returned_state:
  assumes "DEFAULT_QUEUE_ID env \<noteq> []" and "get_questions_for_queue (http env) \<noteq> []"
    and "outcome (check_queue_for_groups env st) = Returned"
  shows "state_after (check_queue_for_groups env st) =
     st\<lparr>previous_groups_in_queue :=
          check_group_members_in_queue (collect_netids (get_questions_for_queue (http env)))
            (netid_to_group st) (group_to_members st)\<rparr>"
  using assms(3) unfolding cycle_full [OF assms(1,2)]
  by (auto split: prod.splits outcome.splits)

lemma cycle_quiet:
  assumes "tracker_output env st = None \<or> tracker_output env st = Some []"
  shows "dispatched (check_queue_for_groups env st) = None"
proof (cases "DEFAULT_QUEUE_ID env = [] \<or> get_questions_for_queue (http env) = []")
  case True
  then show ?thesis by (simp add: cycle_early)
next
  case False
  then have a: "DEFAULT_QUEUE_ID env \<noteq> []" and b: "get_questions_for_queue (http env) \<noteq> []"
    by simp_all
  with assms have "new_groups
        (check_group_members_in_queue (collect_netids (get_questions_for_queue (http env)))
           (netid_to_group st) (group_to_members st))
        (previous_groups_in_queue st) = []"
    by (simp add: tracker_output_def Let_def)
  then show ?thesis by (simp add: cycle_full [OF a b] alert_empty)
qed

lemma cycle_repeat:
  assumes ret: "outcome (check_queue_for_groups env st) = Returned"
    and q: "DEFAULT_QUEUE_ID env' = DEFAULT_QUEUE_ID env" and h: "http env' = http env"
  shows "tracker_output env' (state_after (check_queue_for_groups env st)) = None \<or>
         tracker_output env' (state_after (check_queue_for_groups env st)) = Some []"
proof (cases "DEFAULT_QUEUE_ID env = [] \<or> get_questions_for_queue (http env) = []")
  case True
  with q h show ?thesis by (auto simp: tracker_output_def Let_def)
next
  case False
  then have a: "DEFAULT_QUEUE_ID env \<noteq> []" and b: "get_questions_for_queue (http env) \<noteq> []"
    by simp_all
  have "tracker_output env' (state_after (check_queue_for_groups env st)) = Some []"
    using a b q h
    by (simp add: cycle_returned_state [OF a b ret] tracker_output_def Let_def
          new_groups_self [OF detect_distinct])
  then show ?thesis ..
qed

text \<open>
  C2, as the code has it: a cycle that has a queue id, fetches a non-empty list of
  questions and returns without an exception ends with Previous-Cycle State replaced
  by the full current overlap result.  A fetch that fails (a transport error or a
  status other than 200) yields no questions, and a cycle without questions returns
  early and leaves the state, Previous-Cycle State included, as it was.
\<close>

theorem cycle_replaces_previous_state:
  "(DEFAULT_QUEUE_ID env \<noteq> [] \<and> get_questions_for_queue (http env) \<noteq> [] \<and>
    outcome (check_queue_for_groups env st) = Returned \<longrightarrow>
      previous_groups_in_queue (state_after (check_queue_for_groups env st)) =
        check_group_members_in_queue (collect_netids (get_questions_for_queue (http env)))
          (netid_to_group st) (group_to_members st)) \<and>
   (http env = TransportError \<or> (\<exists>code body. http env = Response code body \<and> code \<noteq> 200) \<longrightarrow>
      get_questions_for_queue (http env) = []) \<and>
   (get_questions_for_queue (http env) = [] \<longrightarrow>
      state_after (check_queue_for_groups env st) = st)"
  by (auto simp: cycle_returned_state cycle_early)

theorem cycle_replaces_previous_state_witness:
  "DEFAULT_QUEUE_ID scenario_env \<noteq> [] \<and>
   get_questions_for_queue (http scenario_env) \<noteq> [] \<and>
   outcome (check_queue_for_groups scenario_env scenario_state) = Returned \<and>
   previous_groups_in_queue (state_after (check_queue_for_groups scenario_env scenario_state)) =
     [(''Group 1'', [''alice'', ''bob''])] \<and>
   http transport_error_env = TransportError \<and>
   get_questions_for_queue (http transport_error_env) = [] \<and>
   state_after (check_queue_for_groups transport_error_env reported_state) = reported_state"
proof -
  have id: "DEFAULT_QUEUE_ID scenario_env \<noteq> []" by code_simp
  have qs: "get_questions_for_queue (http scenario_env) \<noteq> []" by code_simp
  have ret: "outcome (check_queue_for_groups scenario_env scenario_state) = Returned"
    by code_simp
  have overlap: "check_group_members_in_queue
       (collect_netids (get_questions_for_queue (http scenario_env)))
       (netid_to_group scenario_state) (group_to_members scenario_state) =
     [(''Group 1'', [''alice'', ''bob''])]"
    by code_simp
  have failed: "http transport_error_env = TransportError"
    by (simp add: transport_error_env_def)
  from cycle_replaces_previous_state [of scenario_env scenario_state] id qs ret overlap
  have first: "previous_groups_in_queue
       (state_after (check_queue_for_groups scenario_env scenario_state)) =
     [(''Group 1'', [''alice'', ''bob''])]"
    by simp
  from cycle_replaces_previous_state [of transport_error_env reported_state] failed
  have second: "get_questions_for_queue (http transport_error_env) = [] \<and>
     state_after (check_queue_for_groups transport_error_env reported_state) = reported_state"
    by simp
  from id qs ret first failed second show ?thesis by simp
qed

text \<open>
  After a transport error, and after a status other than 200, Previous-Cycle State
  still holds the group reported earlier: it has not become the empty mapping.
\<close>

theorem fetch_failure_keeps_previous_state:
  "previous_groups_in_queue
     (state_after (check_queue_for_groups transport_error_env reported_state)) =
     [(''Group 1'', [''alice'', ''bob''])] \<and>
   previous_groups_in_queue
     (state_after (check_queue_for_groups transport_error_env reported_state)) \<noteq> [] \<and>
   previous_groups_in_queue
     (state_after (check_queue_for_groups bad_status_env reported_state)) \<noteq> []"
  by code_simp

text \<open>
  C8, as the code has it: a cycle whose change tracker yields nothing (or that returns
  before reaching it) hands no message to the channel.  When a cycle has returned
  without raising and the next one meets the same queue id and the same answer of the
  queue service, with the roster untouched, the tracker of the second cycle yields
  nothing and the second cycle hands no message to the channel.
\<close>

theorem no_alert_without_news:
  "(tracker_output env st = None \<or> tracker_output env st = Some [] \<longrightarrow>
      dispatched (check_queue_for_groups env st) = None) \<and>
   (outcome (check_queue_for_groups env st) = Returned \<and>
    DEFAULT_QUEUE_ID env' = DEFAULT_QUEUE_ID env \<and> http env' = http env \<longrightarrow>
      (tracker_output env' (state_after (check_queue_for_groups env st)) = None \<or>
       tracker_output env' (state_after (check_queue_for_groups env st)) = Some []) \<and>
      dispatched (check_queue_for_groups env' (state_after (check_queue_for_groups env st))) = None)"
  using cycle_quiet cycle_repeat by blast

theorem no_alert_without_news_witness:
  "outcome (check_queue_for_groups scenario_env scenario_state) = Returned \<and>
   dispatched (check_queue_for_groups scenario_env scenario_state) =
     Some (format_groups_message [(''Group 1'', [''alice'', ''bob''])]
             (group_to_members scenario_state)) \<and>
   state_after (check_queue_for_groups scenario_env scenario_state) = reported_state \<and>
   tracker_output scenario_env reported_state = Some [] \<and>
   dispatched (check_queue_for_groups scenario_env reported_state) = None"
proof -
  have ret: "outcome (check_queue_for_groups scenario_env scenario_state) = Returned"
    by code_simp
  have sent: "dispatched (check_queue_for_groups scenario_env scenario_state) =
     Some (format_groups_message [(''Group 1'', [''alice'', ''bob''])]
             (group_to_members scenario_state))"
    by code_simp
  have after: "state_after (check_queue_for_groups scenario_env scenario_state) = reported_state"
    by code_simp
  have quiet: "tracker_output scenario_env reported_state = Some []"
    by code_simp
  from no_alert_without_news [of scenario_env reported_state scenario_env] quiet
  have one: "dispatched (check_queue_for_groups scenario_env reported_state) = None"
    by simp
  from no_alert_without_news [of scenario_env scenario_state scenario_env] ret after
  have two: "dispatched (check_queue_for_groups scenario_env reported_state) = None"
    by simp
  from ret sent after quiet one two show ?thesis by simp
qed


text \<open>
  When \<open>send\<close> raises in the first cycle, or the channel id setting is not an integer,
  the first cycle ends before line 256 and leaves Previous-Cycle State empty.  The
  second cycle, on the same roster and the same queue snapshot, finds Group 1 new
  again: its diff is not empty, and with a working channel it sends the alert.
\<close>

theorem failed_dispatch_repeats_alert:
  "outcome (check_queue_for_groups failing_send_env scenario_state) = Raised \<and>
   state_after (check_queue_for_groups failing_send_env scenario_state) = scenario_state \<and>
   DEFAULT_QUEUE_ID scenario_env = DEFAULT_QUEUE_ID failing_send_env \<and>
   http scenario_env = http failing_send_env \<and>
   tracker_output scenario_env
       (state_after (check_queue_for_groups failing_send_env scenario_state)) =
     Some [(''Group 1'', [''alice'', ''bob''])] \<and>
   dispatched
       (check_queue_for_groups scenario_env
          (state_after (check_queue_for_groups failing_send_env scenario_state))) =
     Some (format_groups_message [(''Group 1'', [''alice'', ''bob''])]
             (group_to_members scenario_state)) \<and>
   outcome (check_queue_for_groups bad_channel_id_env scenario_state) = Raised \<and>
   tracker_output bad_channel_id_env
       (state_after (check_queue_for_groups bad_channel_id_env scenario_state)) =
     Some [(''Group 1'', [''alice'', ''bob''])]"
  by code_simp


section \<open>The interval command\<close>

text \<open>
  C9: a requested interval below 60 seconds is rejected: the state, and with it the
  polling interval, is unchanged and the operator is told so.  A requested interval of
  60 seconds or more becomes the polling interval, and nothing else changes.
\<close>

theorem set_interval_floor:
  "(seconds < 60 \<longrightarrow>
      set_interval_command seconds st = (st, ''Interval must be at least 60 seconds.'')) \<and>
   (60 \<le> seconds \<longrightarrow>
      fst (set_interval_command seconds st) = st\<lparr>CHECK_INTERVAL := seconds\<rparr> \<and>
      CHECK_INTERVAL (fst (set_interval_command seconds st)) = seconds)"
  by (simp add: set_interval_command_def)

theorem set_interval_floor_witness:
  "(59::int) < 60 \<and>
   set_interval_command 59 scenario_state =
     (scenario_state, ''Interval must be at least 60 seconds.'') \<and>
   (60::int) \<le> 60 \<and>
   CHECK_INTERVAL (fst (set_interval_command 60 scenario_state)) = 60"
  using set_interval_floor [of 59 scenario_state] set_interval_floor [of 60 scenario_state]
  by simp

end
